theory Spec2Isabelle
  imports Main "HOL-Library.Word" "HOL-Library.Multiset" "HOL-Library.Sublist" "HOL-Library.AList"
begin

section \<open>Huffman coding: the data model of \<^verbatim>\<open>huffman.py\<close>\<close>

text \<open>
  The exceptions the code can raise: \<^verbatim>\<open>heapq.heappop\<close> on an empty list
  (IndexError), a dictionary lookup of a missing key (KeyError), \<^verbatim>\<open>int(s, 2)\<close> on a
  string that is not a binary literal and \<^verbatim>\<open>bytearray.append\<close> of a value outside
  0..255 (ValueError), and \<^verbatim>\<open>exit(0)\<close> in \<^verbatim>\<open>get_byte_array\<close> (SystemExit).
\<close>

datatype error = IndexError | KeyError | ValueError | SystemExit

text \<open>
  \<^verbatim>\<open>class HeapNode\<close>: the fields \<^verbatim>\<open>char\<close>, \<^verbatim>\<open>freq\<close>, \<^verbatim>\<open>left\<close>, \<^verbatim>\<open>right\<close>;
  Python's \<^verbatim>\<open>None\<close> is \<open>None\<close>. Symbols are of any type \<open>'a\<close> (the characters of
  the text); frequencies are Python integers.
\<close>

datatype 'a HeapNode =
  HeapNode (char: "'a option") (freq: int) (left: "'a HeapNode option") (right: "'a HeapNode option")

text \<open>\<^verbatim>\<open>HeapNode.__lt__\<close>, the only comparison \<^verbatim>\<open>heapq\<close> uses.\<close>

definition lt :: "'a HeapNode \<Rightarrow> 'a HeapNode \<Rightarrow> bool" where
  "lt self other = (freq self < freq other)"

type_synonym byte = "8 word"

section \<open>The standard library functions the code calls\<close>

subsection \<open>\<^verbatim>\<open>heapq\<close>\<close>

text \<open>
  \<^verbatim>\<open>heapq._siftdown(heap, startpos, pos)\<close>: the item at \<^verbatim>\<open>pos\<close> moves towards the
  root while it is smaller than its parent. Every index read is below the length of
  the list.
\<close>

function siftdown_loop :: "'a HeapNode list \<Rightarrow> nat \<Rightarrow> 'a HeapNode \<Rightarrow> nat \<Rightarrow> 'a HeapNode list" where
  "siftdown_loop heap startpos newitem pos =
     (if pos > startpos then
        (let parentpos = (pos - 1) div 2;
             parent = heap ! parentpos
         in if lt newitem parent
            then siftdown_loop (heap[pos := parent]) startpos newitem parentpos
            else heap[pos := newitem])
      else heap[pos := newitem])"
  by pat_completeness auto
termination
  by (relation "measure (\<lambda>(heap, startpos, newitem, pos). pos)") auto

declare siftdown_loop.simps [simp del]

definition siftdown :: "'a HeapNode list \<Rightarrow> nat \<Rightarrow> nat \<Rightarrow> 'a HeapNode list" where
  "siftdown heap startpos pos = siftdown_loop heap startpos (heap ! pos) pos"

text \<open>
  \<^verbatim>\<open>heapq._siftup(heap, pos)\<close>: the smaller child moves up until a leaf position is
  reached, the item is put there and sifted down again.
\<close>

function siftup_loop :: "'a HeapNode list \<Rightarrow> nat \<Rightarrow> nat \<Rightarrow> nat \<Rightarrow> 'a HeapNode list \<times> nat" where
  "siftup_loop heap endpos pos childpos =
     (if childpos < endpos then
        (let rightpos = childpos + 1;
             childpos1 = (if rightpos < endpos \<and> \<not> lt (heap ! childpos) (heap ! rightpos)
                          then rightpos else childpos)
         in siftup_loop (heap[pos := heap ! childpos1]) endpos childpos1 (2 * childpos1 + 1))
      else (heap, pos))"
  by pat_completeness auto
termination
  by (relation "measure (\<lambda>(heap, endpos, pos, childpos). endpos - childpos)") auto

declare siftup_loop.simps [simp del]

definition siftup :: "'a HeapNode list \<Rightarrow> nat \<Rightarrow> 'a HeapNode list" where
  "siftup heap pos =
     (let endpos = length heap;
          startpos = pos;
          newitem = heap ! pos;
          (heap1, pos1) = siftup_loop heap endpos pos (2 * pos + 1)
      in siftdown (heap1[pos1 := newitem]) startpos pos1)"

text \<open>\<^verbatim>\<open>heapq.heappush(heap, item)\<close>.\<close>

definition heappush :: "'a HeapNode list \<Rightarrow> 'a HeapNode \<Rightarrow> 'a HeapNode list" where
  "heappush heap item = siftdown (heap @ [item]) 0 (length (heap @ [item]) - 1)"

text \<open>
  \<^verbatim>\<open>heapq.heappop(heap)\<close>: the popped item and the list that is left;
  IndexError on the empty list.
\<close>

definition heappop :: "'a HeapNode list \<Rightarrow> error + ('a HeapNode \<times> 'a HeapNode list)" where
  "heappop heap =
     (if heap = [] then Inl IndexError
      else (let lastelt = last heap;
                heap1 = butlast heap
            in if heap1 \<noteq> []
               then (let returnitem = heap1 ! 0;
                         heap2 = heap1[0 := lastelt]
                     in Inr (returnitem, siftup heap2 0))
               else Inr (lastelt, heap1)))"

subsection \<open>\<^verbatim>\<open>heapq\<close> keeps the items of the list\<close>

text \<open>
  Pushing and popping permute the list: nothing is lost and nothing is duplicated,
  whatever the order of the frequencies is.
\<close>

lemma length_siftdown_loop [simp]:
  "length (siftdown_loop h startpos newitem pos) = length h"
proof (induction h startpos newitem pos rule: siftdown_loop.induct)
  case (1 h startpos newitem pos)
  show ?case
    using "1.IH" by (subst siftdown_loop.simps) (simp add: Let_def)
qed

lemma mset_update_swap:
  assumes "i < length h" "j < length h" "i \<noteq> j"
  shows "mset (h[i := h ! j, j := x]) = mset (h[i := x])"
proof -
  let ?k = "h[i := x]"
  have "mset (?k[i := ?k ! j, j := ?k ! i]) = mset ?k"
    using assms by (intro mset_swap) simp_all
  moreover have "?k[i := ?k ! j, j := ?k ! i] = h[i := h ! j, j := x]"
    using assms by simp
  ultimately show ?thesis by simp
qed

lemma mset_siftdown_loop:
  "pos < length h \<Longrightarrow> mset (siftdown_loop h startpos newitem pos) = mset (h[pos := newitem])"
proof (induction h startpos newitem pos rule: siftdown_loop.induct)
  case (1 h startpos newitem pos)
  show ?case
  proof (cases "pos > startpos \<and> lt newitem (h ! ((pos - 1) div 2))")
    case True
    then have pp: "(pos - 1) div 2 < pos" by auto
    have "siftdown_loop h startpos newitem pos
            = siftdown_loop (h[pos := h ! ((pos - 1) div 2)]) startpos newitem ((pos - 1) div 2)"
      using True by (subst siftdown_loop.simps) (simp add: Let_def)
    also have "mset \<dots> = mset (h[pos := h ! ((pos - 1) div 2), (pos - 1) div 2 := newitem])"
      using True pp "1.prems" by (intro "1.IH") auto
    also have "\<dots> = mset (h[pos := newitem])"
      using pp "1.prems" by (intro mset_update_swap) auto
    finally show ?thesis .
  next
    case False
    then show ?thesis by (subst siftdown_loop.simps) (auto simp: Let_def)
  qed
qed

lemma mset_siftdown: "pos < length h \<Longrightarrow> mset (siftdown h startpos pos) = mset h"
  by (simp add: siftdown_def mset_siftdown_loop)

lemma length_siftdown [simp]: "length (siftdown h startpos pos) = length h"
  by (simp add: siftdown_def)

lemma siftup_loop_props:
  "siftup_loop h endpos pos childpos = (h1, pos1) \<Longrightarrow> endpos = length h \<Longrightarrow> pos < length h
   \<Longrightarrow> pos < childpos
   \<Longrightarrow> length h1 = length h \<and> pos1 < length h \<and> mset (h1[pos1 := x]) = mset (h[pos := x])"
proof (induction h endpos pos childpos arbitrary: h1 pos1 rule: siftup_loop.induct)
  case (1 h endpos pos childpos)
  show ?case
  proof (cases "childpos < endpos")
    case True
    let ?c = "if childpos + 1 < endpos \<and> \<not> lt (h ! childpos) (h ! (childpos + 1))
              then childpos + 1 else childpos"
    have c: "?c < length h" "pos < ?c" "?c \<noteq> pos"
      using True "1.prems" by auto
    have "siftup_loop h endpos pos childpos
            = siftup_loop (h[pos := h ! ?c]) endpos ?c (2 * ?c + 1)"
      by (subst siftup_loop.simps) (simp only: True if_True Let_def)
    with "1.prems"(1)
    have eq: "siftup_loop (h[pos := h ! ?c]) endpos ?c (2 * ?c + 1) = (h1, pos1)"
      by simp
    have "length h1 = length (h[pos := h ! ?c]) \<and> pos1 < length (h[pos := h ! ?c])
          \<and> mset (h1[pos1 := x]) = mset (h[pos := h ! ?c, ?c := x])"
    proof (rule "1.IH"[OF True refl refl eq])
      show "endpos = length (h[pos := h ! ?c])" using "1.prems" by simp
      show "?c < length (h[pos := h ! ?c])" using c by simp
      show "?c < 2 * ?c + 1" by simp
    qed
    moreover have "mset (h[pos := h ! ?c, ?c := x]) = mset (h[pos := x])"
      using c "1.prems" by (intro mset_update_swap) auto
    ultimately show ?thesis by simp
  next
    case False
    have "siftup_loop h endpos pos childpos = (h, pos)"
      by (subst siftup_loop.simps) (simp only: False if_False)
    then show ?thesis using "1.prems" by auto
  qed
qed

lemma mset_siftup:
  assumes p: "pos < length h"
  shows "mset (siftup h pos) = mset h"
proof -
  obtain h1 pos1 where eq: "siftup_loop h (length h) pos (2 * pos + 1) = (h1, pos1)"
    by (cases "siftup_loop h (length h) pos (2 * pos + 1)")
  from siftup_loop_props[OF eq refl p, of "h ! pos"]
  have *: "length h1 = length h" "pos1 < length h" "mset (h1[pos1 := h ! pos]) = mset h"
    by auto
  have "siftup h pos = siftdown (h1[pos1 := h ! pos]) pos pos1"
    by (simp only: siftup_def Let_def eq prod.case)
  then show ?thesis
    using * by (simp add: mset_siftdown)
qed

lemma mset_heappush: "mset (heappush h item) = add_mset item (mset h)"
  by (simp add: heappush_def mset_siftdown)

lemma heappop_empty: "heappop [] = Inl IndexError"
  by (simp add: heappop_def)

lemma mset_heappop:
  assumes "h \<noteq> []"
  shows "\<exists>x h'. heappop h = Inr (x, h') \<and> mset h = add_mset x (mset h')"
proof (cases "butlast h = []")
  case True
  then have "heappop h = Inr (last h, [])" using assms by (simp add: heappop_def)
  moreover have "h = [last h]" using True assms
    by (metis append_butlast_last_id append_Nil)
  then have "mset h = {#last h#}" by (metis mset.simps(1) mset.simps(2))
  ultimately show ?thesis by simp
next
  case False
  let ?b = "butlast h"
  have len: "Suc 0 < length h"
    using False by (cases h rule: rev_cases) auto
  have pop: "heappop h = Inr (?b ! 0, siftup (?b[0 := last h]) 0)"
    by (simp only: heappop_def Let_def assms False if_False not_False_eq_True if_True)
  have "mset (siftup (?b[0 := last h]) 0) = mset (?b[0 := last h])"
    using len by (intro mset_siftup) simp
  also have "\<dots> = add_mset (last h) (mset ?b - {#?b ! 0#})"
    using len by (intro mset_update) simp
  finally have m: "mset (siftup (?b[0 := last h]) 0) = add_mset (last h) (mset ?b - {#?b ! 0#})" .
  have "?b ! 0 \<in> set ?b" using len by (intro nth_mem) simp
  then have "?b ! 0 \<in># mset ?b" by (simp only: set_mset_mset)
  then have "add_mset (?b ! 0) (mset ?b - {#?b ! 0#}) = mset ?b" by simp
  moreover have "mset h = add_mset (last h) (mset ?b)"
    using assms by (metis append_butlast_last_id mset_append add_mset_add_single mset.simps union_mset_add_mset_right add.right_neutral)
  ultimately show ?thesis using pop m by (simp add: add_mset_commute)
qed

lemma length_heappush: "length (heappush h item) = Suc (length h)"
  by (simp add: heappush_def)

lemma heappop_Inr:
  assumes "heappop h = Inr (x, h')"
  shows "h \<noteq> [] \<and> mset h = add_mset x (mset h') \<and> Suc (length h') = length h"
proof -
  have ne: "h \<noteq> []" using assms by (auto simp: heappop_def)
  from mset_heappop[OF ne] assms have m: "mset h = add_mset x (mset h')" by auto
  have "length h = size (mset h)" by simp
  also have "\<dots> = Suc (length h')" by (simp only: m size_add_mset size_mset)
  finally show ?thesis using ne m by simp
qed

subsection \<open>Strings and integers\<close>

text \<open>A bit-string: every character is 0 or 1.\<close>

definition is_bit :: "char \<Rightarrow> bool" where
  "is_bit c = (c = CHR ''0'' \<or> c = CHR ''1'')"

definition is_bits :: "string \<Rightarrow> bool" where
  "is_bits s = list_all is_bit s"

text \<open>
  \<^verbatim>\<open>int(s, 2)\<close> on a bit-string: the empty string raises ValueError. (Python also
  accepts a sign, a \<^verbatim>\<open>0b\<close> prefix, underscores and surrounding blanks; no string of
  this program has them, and every other string raises ValueError as here.)
\<close>

definition bits_value :: "string \<Rightarrow> nat" where
  "bits_value s = foldl (\<lambda>acc c. 2 * acc + (if c = CHR ''1'' then 1 else 0)) 0 s"

definition int_base2 :: "string \<Rightarrow> error + nat" where
  "int_base2 s = (if s \<noteq> [] \<and> is_bits s then Inr (bits_value s) else Inl ValueError)"

text \<open>\<^verbatim>\<open>bin(n)[2:]\<close>: the binary digits of \<open>n\<close>, most significant first, \<open>0\<close> for 0.\<close>

fun bin_digits :: "nat \<Rightarrow> string" where
  "bin_digits n =
     (if n < 2 then [if n = 0 then CHR ''0'' else CHR ''1'']
      else bin_digits (n div 2) @ [if n mod 2 = 0 then CHR ''0'' else CHR ''1''])"

declare bin_digits.simps [simp del]

text \<open>\<^verbatim>\<open>s.rjust(width, fillchar)\<close>.\<close>

definition rjust :: "nat \<Rightarrow> char \<Rightarrow> string \<Rightarrow> string" where
  "rjust width fillchar s = replicate (width - length s) fillchar @ s"

text \<open>\<^verbatim>\<open>"{0:08b}".format(n)\<close> for \<open>n \<ge> 0\<close>: binary, zero-filled to at least 8 digits.\<close>

definition format_08b :: "nat \<Rightarrow> string" where
  "format_08b n = rjust 8 CHR ''0'' (bin_digits n)"

section \<open>Compression\<close>

text \<open>
  \<^verbatim>\<open>class HuffmanCoding\<close>: the heap (a Python list kept in heap order by \<^verbatim>\<open>heapq\<close>),
  the forward table \<^verbatim>\<open>codes\<close> and the reverse table \<^verbatim>\<open>reverse_mapping\<close>. Bit-strings
  are Python strings of the characters 0 and 1. The field \<^verbatim>\<open>path\<close> only names
  files and is left out.
\<close>

record 'a HuffmanCoding =
  heap :: "'a HeapNode list"
  codes :: "'a \<rightharpoonup> string"
  reverse_mapping :: "string \<rightharpoonup> 'a"

text \<open>\<^verbatim>\<open>HuffmanCoding.__init__\<close>.\<close>

definition new_HuffmanCoding :: "'a HuffmanCoding" where
  "new_HuffmanCoding = \<lparr>heap = [], codes = Map.empty, reverse_mapping = Map.empty\<rparr>"

text \<open>
  \<^verbatim>\<open>make_frequency_dict\<close>. A dictionary whose iteration order matters is an
  association list with distinct keys in insertion order: an assignment to a key that is
  present keeps its place, a new key goes to the end. The key is present when its
  count is incremented, so that lookup never raises.
\<close>

definition make_frequency_dict :: "'a list \<Rightarrow> ('a \<times> int) list" where
  "make_frequency_dict text =
     foldl (\<lambda>frequency character.
              (let frequency1 = (if map_of frequency character = None
                                 then AList.update character 0 frequency else frequency)
               in case map_of frequency1 character of
                    Some n \<Rightarrow> AList.update character (n + 1) frequency1
                  | None \<Rightarrow> frequency1))
           [] text"

text \<open>
  \<^verbatim>\<open>make_heap\<close>: one leaf per key, pushed in the dictionary's order;
  \<^verbatim>\<open>frequency[key]\<close> is the value stored with the key.
\<close>

definition make_heap :: "'a HuffmanCoding \<Rightarrow> ('a \<times> int) list \<Rightarrow> 'a HuffmanCoding" where
  "make_heap self frequency =
     foldl (\<lambda>self (key, f).
              (let node = HeapNode (Some key) f None None
               in self\<lparr>heap := heappush (heap self) node\<rparr>))
           self frequency"

text \<open>
  \<^verbatim>\<open>merge_nodes\<close>: while more than one node is in the heap, the two popped nodes
  become the left and the right child of a new node without a character.
\<close>

function merge_nodes :: "'a HuffmanCoding \<Rightarrow> error + 'a HuffmanCoding" where
  "merge_nodes self =
     (if length (heap self) > 1 then
        (case heappop (heap self) of
           Inl e \<Rightarrow> Inl e
         | Inr (node1, heap1) \<Rightarrow>
             (case heappop heap1 of
                Inl e \<Rightarrow> Inl e
              | Inr (node2, heap2) \<Rightarrow>
                  (let merged = HeapNode None (freq node1 + freq node2) (Some node1) (Some node2)
                   in merge_nodes (self\<lparr>heap := heappush heap2 merged\<rparr>))))
      else Inr self)"
  by pat_completeness auto
termination
proof (relation "measure (\<lambda>self. length (heap self))")
  show "wf (measure (\<lambda>self. length (heap self)))" by simp
next
  fix self :: "'a HuffmanCoding" and x2 node1 heap1 x2a node2 heap2 merged
  assume "heappop (heap self) = Inr x2" "(node1, heap1) = x2"
    and "heappop heap1 = Inr x2a" "(node2, heap2) = x2a"
  then have "Suc (length heap1) = length (heap self)" "Suc (length heap2) = length heap1"
    using heappop_Inr[of "heap self" node1 heap1] heappop_Inr[of heap1 node2 heap2] by auto
  then show "(self\<lparr>heap := heappush heap2 merged\<rparr>, self) \<in> measure (\<lambda>self. length (heap self))"
    by (simp add: length_heappush)
qed

declare merge_nodes.simps [simp del]

text \<open>
  \<^verbatim>\<open>make_codes_helper\<close>: nothing for \<^verbatim>\<open>None\<close> (for a node,
  \<^verbatim>\<open>root == None\<close> is false by \<^verbatim>\<open>HeapNode.__eq__\<close>); a node with a character
  gets the code walked so far, in both tables; else the left child is walked with a 0
  appended and then the right child with a 1 appended.
\<close>

fun make_codes_helper :: "'a HeapNode option \<Rightarrow> string \<Rightarrow> 'a HuffmanCoding \<Rightarrow> 'a HuffmanCoding" where
  "make_codes_helper None current_code self = self"
| "make_codes_helper (Some (HeapNode (Some c) f l r)) current_code self =
     self\<lparr>codes := (codes self)(c \<mapsto> current_code),
          reverse_mapping := (reverse_mapping self)(current_code \<mapsto> c)\<rparr>"
| "make_codes_helper (Some (HeapNode None f l r)) current_code self =
     make_codes_helper r (current_code @ ''1'')
       (make_codes_helper l (current_code @ ''0'') self)"

text \<open>\<^verbatim>\<open>make_codes\<close>: the root is popped from the heap; IndexError when the heap is empty.\<close>

definition make_codes :: "'a HuffmanCoding \<Rightarrow> error + 'a HuffmanCoding" where
  "make_codes self =
     (case heappop (heap self) of
        Inl e \<Rightarrow> Inl e
      | Inr (root, heap1) \<Rightarrow>
          (let current_code = []
           in Inr (make_codes_helper (Some root) current_code (self\<lparr>heap := heap1\<rparr>))))"

text \<open>\<^verbatim>\<open>get_encoded_text\<close>: \<^verbatim>\<open>self.codes[character]\<close> raises KeyError on a missing key.\<close>

fun get_encoded_text_loop :: "('a \<rightharpoonup> string) \<Rightarrow> 'a list \<Rightarrow> string \<Rightarrow> error + string" where
  "get_encoded_text_loop cds [] encoded_text = Inr encoded_text"
| "get_encoded_text_loop cds (character # rest) encoded_text =
     (case cds character of
        None \<Rightarrow> Inl KeyError
      | Some code \<Rightarrow> get_encoded_text_loop cds rest (encoded_text @ code))"

definition get_encoded_text :: "'a HuffmanCoding \<Rightarrow> 'a list \<Rightarrow> error + string" where
  "get_encoded_text self text = get_encoded_text_loop (codes self) text []"

text \<open>
  \<^verbatim>\<open>pad_encoded_text\<close>: \<open>extra_padding\<close> is its local variable of that name, the
  number of 0 characters appended; its 8-digit binary form goes in front.
\<close>

definition extra_padding :: "string \<Rightarrow> nat" where
  "extra_padding encoded_text = 8 - length encoded_text mod 8"

definition pad_encoded_text :: "string \<Rightarrow> string" where
  "pad_encoded_text encoded_text =
     (let encoded_text1 = encoded_text @ replicate (extra_padding encoded_text) CHR ''0'';
          padded_info = format_08b (extra_padding encoded_text)
      in padded_info @ encoded_text1)"

text \<open>
  \<^verbatim>\<open>get_byte_array\<close>: the length check that prints and exits, then one byte per
  slice \<^verbatim>\<open>[i:i+8]\<close> for \<open>i = 0, 8, 16, \<dots>\<close> below the length.
\<close>

function get_byte_array_loop :: "string \<Rightarrow> nat \<Rightarrow> byte list \<Rightarrow> error + byte list" where
  "get_byte_array_loop padded_encoded_text i b =
     (if i < length padded_encoded_text then
        (let byte = take 8 (drop i padded_encoded_text)
         in case int_base2 byte of
              Inl e \<Rightarrow> Inl e
            | Inr v \<Rightarrow> if v < 256
                       then get_byte_array_loop padded_encoded_text (i + 8) (b @ [of_nat v])
                       else Inl ValueError)
      else Inr b)"
  by pat_completeness auto
termination
  by (relation "measure (\<lambda>(padded_encoded_text, i, b). length padded_encoded_text - i)") auto

declare get_byte_array_loop.simps [simp del]

definition get_byte_array :: "string \<Rightarrow> error + byte list" where
  "get_byte_array padded_encoded_text =
     (if length padded_encoded_text mod 8 \<noteq> 0 then Inl SystemExit
      else get_byte_array_loop padded_encoded_text 0 [])"

text \<open>
  \<^verbatim>\<open>str.rstrip()\<close>: the characters at the end for which \<^verbatim>\<open>str.isspace\<close> holds
  are removed. Among the characters below 256 these are 9 to 13, 28 to 32, 133 and 160.
\<close>

definition is_space :: "char \<Rightarrow> bool" where
  "is_space c =
     (let n = (of_char c :: nat)
      in (9 \<le> n \<and> n \<le> 13) \<or> (28 \<le> n \<and> n \<le> 32) \<or> n = 133 \<or> n = 160)"

definition rstrip :: "string \<Rightarrow> string" where
  "rstrip s = rev (dropWhile is_space (rev s))"

text \<open>
  \<^verbatim>\<open>compress\<close>, from the text read from the file to the bytes written to the output
  file; opening, reading and writing the files belong to the caller. \<open>make_tables\<close>
  is its first half after the frequency count (heap, merge, codes) and
  \<open>encode_payload\<close> its second half, which uses the tables only.
\<close>

definition make_tables :: "'a HuffmanCoding \<Rightarrow> ('a \<times> int) list \<Rightarrow> error + 'a HuffmanCoding" where
  "make_tables self frequency =
     (case merge_nodes (make_heap self frequency) of
        Inl e \<Rightarrow> Inl e
      | Inr self1 \<Rightarrow> make_codes self1)"

definition encode_payload :: "'a HuffmanCoding \<Rightarrow> 'a list \<Rightarrow> error + byte list" where
  "encode_payload self text =
     (case get_encoded_text self text of
        Inl e \<Rightarrow> Inl e
      | Inr encoded_text \<Rightarrow>
          (let padded_encoded_text = pad_encoded_text encoded_text
           in get_byte_array padded_encoded_text))"

definition compress :: "char HuffmanCoding \<Rightarrow> string \<Rightarrow> error + (char HuffmanCoding \<times> byte list)" where
  "compress self text0 =
     (let text = rstrip text0;
          frequency = make_frequency_dict text
      in case make_tables self frequency of
           Inl e \<Rightarrow> Inl e
         | Inr self1 \<Rightarrow>
             (case encode_payload self1 text of
                Inl e \<Rightarrow> Inl e
              | Inr b \<Rightarrow> Inr (self1, b)))"

section \<open>Decompression\<close>

text \<open>
  \<^verbatim>\<open>remove_padding\<close>: the slice \<^verbatim>\<open>[:-1*extra_padding]\<close> stops \<open>extra_padding\<close>
  characters before the end, at the start when there are fewer, and is \<^verbatim>\<open>[:0]\<close>,
  the empty string, when \<open>extra_padding\<close> is 0.
\<close>

definition remove_padding :: "string \<Rightarrow> error + string" where
  "remove_padding padded_encoded_text =
     (let padded_info = take 8 padded_encoded_text
      in case int_base2 padded_info of
           Inl e \<Rightarrow> Inl e
         | Inr pad \<Rightarrow>
             (let padded_encoded_text1 = drop 8 padded_encoded_text;
                  encoded_text = (if pad = 0 then []
                                  else take (length padded_encoded_text1 - pad) padded_encoded_text1)
              in Inr encoded_text))"

text \<open>
  \<^verbatim>\<open>decode_text\<close>: the loop over the bits with its two variables; the function
  returns \<^verbatim>\<open>decoded_text\<close> and has no \<^verbatim>\<open>raise\<close>.
\<close>

fun decode_text_loop :: "(string \<rightharpoonup> 'a) \<Rightarrow> string \<Rightarrow> string \<Rightarrow> 'a list \<Rightarrow> string \<times> 'a list" where
  "decode_text_loop rm [] current_code decoded_text = (current_code, decoded_text)"
| "decode_text_loop rm (b # rest) current_code decoded_text =
     (let current_code1 = current_code @ [b]
      in case rm current_code1 of
           Some character \<Rightarrow> decode_text_loop rm rest [] (decoded_text @ [character])
         | None \<Rightarrow> decode_text_loop rm rest current_code1 decoded_text)"

definition decode_text :: "'a HuffmanCoding \<Rightarrow> string \<Rightarrow> 'a list" where
  "decode_text self encoded_text = snd (decode_text_loop (reverse_mapping self) encoded_text [] [])"

text \<open>
  \<^verbatim>\<open>decompress\<close>, from the bytes read to the text written. \<open>read_bit_string\<close>
  is its loop over the bytes of the file: every byte becomes its 8 binary digits,
  \<^verbatim>\<open>bin(byte)[2:].rjust(8, '0')\<close>. Then the padding is removed and the bits are
  decoded.
\<close>

definition read_bit_string :: "byte list \<Rightarrow> string" where
  "read_bit_string input =
     foldl (\<lambda>bit_string byte.
              (let bits = rjust 8 CHR ''0'' (bin_digits (unat byte))
               in bit_string @ bits))
           [] input"

definition decompress :: "'a HuffmanCoding \<Rightarrow> byte list \<Rightarrow> error + 'a list" where
  "decompress self input =
     (let bit_string = read_bit_string input
      in case remove_padding bit_string of
           Inl e \<Rightarrow> Inl e
         | Inr encoded_text \<Rightarrow> Inr (decode_text self encoded_text))"

section \<open>Notions for the proofs\<close>

text \<open>
  The nodes the program builds: a node with a character (a leaf), or a node without one
  whose two children are nodes it built. \<open>paths\<close> lists, for such a node, every
  character with the bits walked to reach it, left to right.
\<close>

fun wf_node :: "'a HeapNode \<Rightarrow> bool" where
  "wf_node (HeapNode (Some c) f l r) = True"
| "wf_node (HeapNode None f (Some l) (Some r)) = (wf_node l \<and> wf_node r)"
| "wf_node (HeapNode None f l r) = False"

fun paths :: "'a HeapNode \<Rightarrow> ('a \<times> string) list" where
  "paths (HeapNode (Some c) f l r) = [(c, [])]"
| "paths (HeapNode None f (Some l) (Some r)) =
     map (\<lambda>(c, p). (c, CHR ''0'' # p)) (paths l) @ map (\<lambda>(c, p). (c, CHR ''1'' # p)) (paths r)"
| "paths (HeapNode None f l r) = []"

definition alphabet :: "'a HeapNode \<Rightarrow> 'a list" where
  "alphabet t = map fst (paths t)"

text \<open>
  The characters of all trees in the heap, as a multiset, and the shape of its nodes:
  pushing a leaf adds its character, merging two popped nodes changes neither.
\<close>

definition forest_alphabet :: "'a HeapNode list \<Rightarrow> 'a multiset" where
  "forest_alphabet h = (\<Sum>t\<in>#mset h. mset (alphabet t))"

definition forest_inv :: "'a HeapNode list \<Rightarrow> bool" where
  "forest_inv h = (\<forall>t\<in>set h. wf_node t)"

section \<open>Bit-strings, padding and bytes\<close>

lemma bits_value_snoc:
  "bits_value (s @ [c]) = 2 * bits_value s + (if c = CHR ''1'' then 1 else 0)"
  by (simp add: bits_value_def)

lemma bits_value_Nil [simp]: "bits_value [] = 0"
  by (simp add: bits_value_def)

lemma is_bits_append [simp]: "is_bits (xs @ ys) = (is_bits xs \<and> is_bits ys)"
  by (simp add: is_bits_def)

lemma is_bits_Nil [simp]: "is_bits []"
  by (simp add: is_bits_def)

lemma is_bits_Cons [simp]: "is_bits (c # cs) = (is_bit c \<and> is_bits cs)"
  by (simp add: is_bits_def)

lemma is_bits_replicate [simp]: "is_bits (replicate n CHR ''0'')"
  by (induction n) (simp_all add: is_bit_def)

lemma is_bits_take: "is_bits s \<Longrightarrow> is_bits (take n s)"
  unfolding is_bits_def list_all_iff by (auto dest: in_set_takeD)

lemma is_bits_drop: "is_bits s \<Longrightarrow> is_bits (drop n s)"
  unfolding is_bits_def list_all_iff by (auto dest: in_set_dropD)

lemma bits_value_less: "bits_value s < 2 ^ length s"
proof (induction s rule: rev_induct)
  case Nil
  show ?case by simp
next
  case (snoc c s)
  have "bits_value (s @ [c]) \<le> 2 * bits_value s + 1"
    by (simp add: bits_value_snoc)
  also have "\<dots> < 2 * 2 ^ length s" using snoc.IH by linarith
  finally show ?case by simp
qed

lemma bits_value_zero: "is_bits s \<Longrightarrow> bits_value s = 0 \<Longrightarrow> s = replicate (length s) CHR ''0''"
proof (induction s rule: rev_induct)
  case Nil
  show ?case by simp
next
  case (snoc c s)
  from snoc.prems have "bits_value s = 0" "c \<noteq> CHR ''1''" "is_bits s" "is_bit c"
    by (auto simp: bits_value_snoc split: if_splits)
  then have "s = replicate (length s) CHR ''0''" "c = CHR ''0''"
    using snoc.IH by (auto simp: is_bit_def)
  then have "s @ [c] = replicate (length s) CHR ''0'' @ [CHR ''0'']" by simp
  also have "\<dots> = replicate (length (s @ [c])) CHR ''0''"
    by (simp add: replicate_append_same)
  finally show ?case .
qed

lemma bin_digits_bits_value:
  "is_bits s \<Longrightarrow> s \<noteq> [] \<Longrightarrow> rjust (length s) CHR ''0'' (bin_digits (bits_value s)) = s"
proof (induction s rule: rev_induct)
  case Nil
  then show ?case by simp
next
  case (snoc c s)
  let ?d = "if c = CHR ''1'' then 1 else 0 :: nat"
  let ?v = "bits_value s"
  from snoc.prems have bits: "is_bits s" "is_bit c" by simp_all
  have c: "c = (if ?d = 0 then CHR ''0'' else CHR ''1'')"
    using bits by (auto simp: is_bit_def)
  show ?case
  proof (cases "?v = 0")
    case True
    then have s: "s = replicate (length s) CHR ''0''"
      using bits bits_value_zero by blast
    have "bin_digits (bits_value (s @ [c])) = [c]"
      using True c by (subst bin_digits.simps) (auto simp: bits_value_snoc)
    then have "rjust (length (s @ [c])) CHR ''0'' (bin_digits (bits_value (s @ [c])))
                 = replicate (length s) CHR ''0'' @ [c]"
      by (simp add: rjust_def)
    then show ?thesis using s by simp
  next
    case False
    then have ne: "s \<noteq> []" by auto
    have "bin_digits (bits_value (s @ [c])) = bin_digits ?v @ [c]"
      using False c by (subst bin_digits.simps) (auto simp: bits_value_snoc)
    then have "rjust (length (s @ [c])) CHR ''0'' (bin_digits (bits_value (s @ [c])))
                 = rjust (length s) CHR ''0'' (bin_digits ?v) @ [c]"
      by (simp add: rjust_def)
    then show ?thesis using snoc.IH[OF bits(1) ne] by simp
  qed
qed

lemma length_bin_digits: "n < 2 ^ k \<Longrightarrow> 0 < k \<Longrightarrow> length (bin_digits n) \<le> k"
proof (induction n arbitrary: k rule: bin_digits.induct)
  case (1 n)
  show ?case
  proof (cases "n < 2")
    case True
    then show ?thesis using "1.prems" by (subst bin_digits.simps) simp
  next
    case False
    obtain j where k: "k = Suc j" using "1.prems" by (cases k) auto
    have j: "0 < j" using False "1.prems" k by (cases j) auto
    have "n div 2 < 2 ^ j" using "1.prems" k by auto
    then have "length (bin_digits (n div 2)) \<le> j"
      using "1.IH"[OF False _ j] by simp
    then show ?thesis using False k by (subst bin_digits.simps) simp
  qed
qed

lemma is_bits_bin_digits [simp]: "is_bits (bin_digits n)"
proof (induction n rule: bin_digits.induct)
  case (1 n)
  then show ?case by (subst bin_digits.simps) (auto simp: is_bit_def)
qed

lemma length_rjust: "length (rjust w c s) = max w (length s)"
  by (simp add: rjust_def)

lemma is_bits_rjust [simp]: "is_bits s \<Longrightarrow> is_bits (rjust w CHR ''0'' s)"
  by (simp add: rjust_def)

lemma length_format_08b: "n < 256 \<Longrightarrow> length (format_08b n) = 8"
  using length_bin_digits[of n 8] by (simp add: format_08b_def length_rjust)

lemma is_bits_format_08b [simp]: "is_bits (format_08b n)"
  by (simp add: format_08b_def)

lemma extra_padding_range: "1 \<le> extra_padding t \<and> extra_padding t \<le> 8"
  by (simp add: extra_padding_def) 

lemma extra_padding_aligns: "(length t + extra_padding t) mod 8 = 0"
  unfolding extra_padding_def by presburger

lemma length_pad_encoded_text:
  "length (pad_encoded_text t) = 8 + length t + extra_padding t"
  using extra_padding_range[of t] by (simp add: pad_encoded_text_def Let_def length_format_08b)

lemma bits_value_append:
  "bits_value (xs @ ys) = bits_value xs * 2 ^ length ys + bits_value ys"
proof (induction ys rule: rev_induct)
  case Nil
  show ?case by simp
next
  case (snoc y ys)
  have "bits_value (xs @ ys @ [y]) = 2 * bits_value (xs @ ys) + (if y = CHR ''1'' then 1 else 0)"
    using bits_value_snoc[of "xs @ ys" y] by simp
  then show ?case by (simp add: snoc.IH bits_value_snoc algebra_simps)
qed

lemma bits_value_replicate_0 [simp]: "bits_value (replicate k CHR ''0'') = 0"
  by (induction k) (simp_all add: bits_value_def)

lemma bits_value_bin_digits [simp]: "bits_value (bin_digits n) = n"
proof (induction n rule: bin_digits.induct)
  case (1 n)
  show ?case
  proof (cases "n < 2")
    case True
    then have "n = 0 \<or> n = 1" by auto
    then show ?thesis by (subst bin_digits.simps) (auto simp: bits_value_def)
  next
    case False
    have "bits_value (bin_digits n) = 2 * bits_value (bin_digits (n div 2)) + (if n mod 2 = 0 then 0 else 1)"
      using False by (subst bin_digits.simps) (simp add: bits_value_snoc)
    then show ?thesis using "1.IH"[OF False] by (simp; presburger)
  qed
qed

lemma bin_digits_not_Nil [simp]: "bin_digits n \<noteq> []"
  by (subst bin_digits.simps) simp

lemma format_08b_value: "int_base2 (format_08b n) = Inr n"
  by (simp add: int_base2_def format_08b_def rjust_def bits_value_append)

lemma read_bit_string_concat:
  "read_bit_string input = concat (map (\<lambda>byte. rjust 8 CHR ''0'' (bin_digits (unat byte))) input)"
proof -
  have "foldl (\<lambda>bit_string byte. bit_string @ f byte) acc input = acc @ concat (map f input)"
    for f :: "byte \<Rightarrow> string" and acc
    by (induction input arbitrary: acc) simp_all
  then show ?thesis by (simp add: read_bit_string_def Let_def)
qed

lemma read_bit_string_Cons:
  "read_bit_string (byte # input) = rjust 8 CHR ''0'' (bin_digits (unat byte)) @ read_bit_string input"
  by (simp add: read_bit_string_concat)

lemma read_bit_string_Nil [simp]: "read_bit_string [] = []"
  by (simp add: read_bit_string_concat)

lemma byte_of_bits:
  assumes "is_bits s" "length s = 8"
  shows "int_base2 s = Inr (bits_value s)" "bits_value s < 256"
    "rjust 8 CHR ''0'' (bin_digits (unat (of_nat (bits_value s) :: byte))) = s"
proof -
  have ne: "s \<noteq> []" using assms by auto
  show "int_base2 s = Inr (bits_value s)" using assms ne by (simp add: int_base2_def)
  show lt: "bits_value s < 256" using bits_value_less[of s] assms by simp
  have "unat (of_nat (bits_value s) :: byte) = bits_value s"
    using lt by (simp add: unat_of_nat)
  then show "rjust 8 CHR ''0'' (bin_digits (unat (of_nat (bits_value s) :: byte))) = s"
    using bin_digits_bits_value[OF assms(1) ne] assms(2) by simp
qed

lemma get_byte_array_loop_bits:
  "is_bits s \<Longrightarrow> i \<le> length s \<Longrightarrow> (length s - i) mod 8 = 0
   \<Longrightarrow> \<exists>bs. get_byte_array_loop s i b = Inr (b @ bs) \<and> read_bit_string bs = drop i s"
proof (induction s i b rule: get_byte_array_loop.induct)
  case (1 s i b)
  show ?case
  proof (cases "i < length s")
    case False
    then have "get_byte_array_loop s i b = Inr b"
      by (subst get_byte_array_loop.simps) simp
    then show ?thesis using False by simp
  next
    case True
    let ?byte = "take 8 (drop i s)"
    let ?v = "bits_value ?byte"
    have ge: "i + 8 \<le> length s" using True "1.prems" by presburger
    have len: "length ?byte = 8" using ge by simp
    have bits: "is_bits ?byte" using "1.prems"(1) by (simp add: is_bits_take is_bits_drop)
    note B = byte_of_bits[OF bits len]
    have step: "get_byte_array_loop s i b = get_byte_array_loop s (i + 8) (b @ [of_nat ?v])"
      using True B(1,2) by (subst get_byte_array_loop.simps) (simp add: Let_def)
    have "(length s - (i + 8)) mod 8 = 0" using ge "1.prems" by presburger
    from "1.IH"[OF True refl B(1) B(2) "1.prems"(1) ge this]
    obtain bs where bs: "get_byte_array_loop s (i + 8) (b @ [of_nat ?v]) = Inr ((b @ [of_nat ?v]) @ bs)"
      "read_bit_string bs = drop (i + 8) s" by blast
    have "read_bit_string (of_nat ?v # bs) = ?byte @ drop (i + 8) s"
      using B(3) bs(2) by (simp add: read_bit_string_Cons)
    also have "\<dots> = drop i s"
      by (metis add.commute append_take_drop_id drop_drop)
    finally show ?thesis using step bs(1) by auto
  qed
qed

lemma get_byte_array_loop_error:
  "get_byte_array_loop s i b = Inl e \<Longrightarrow> e = ValueError"
proof (induction s i b rule: get_byte_array_loop.induct)
  case (1 s i b)
  from "1.prems" show ?case
    by (subst (asm) get_byte_array_loop.simps)
       (auto simp: Let_def int_base2_def split: if_splits sum.splits dest: "1.IH"[rotated -1])
qed

lemma get_byte_array_bits:
  assumes "is_bits s" "length s mod 8 = 0"
  shows "\<exists>bs. get_byte_array s = Inr bs \<and> read_bit_string bs = s"
  using get_byte_array_loop_bits[of s 0 "[]"] assms by (simp add: get_byte_array_def)

lemma is_bits_pad_encoded_text: "is_bits t \<Longrightarrow> is_bits (pad_encoded_text t)"
  by (simp add: pad_encoded_text_def Let_def)

lemma length_pad_encoded_text_mod: "length (pad_encoded_text t) mod 8 = 0"
proof -
  have "(8 + (length t + extra_padding t)) mod 8 = 0"
    using extra_padding_aligns[of t] by presburger
  then show ?thesis by (simp add: length_pad_encoded_text add.assoc)
qed

text \<open>
  Claim C8. Whatever the encoded text is, the string that \<^verbatim>\<open>pad_encoded_text\<close>
  returns has a length that is a multiple of 8, so \<^verbatim>\<open>get_byte_array\<close> never takes
  its branch that prints and exits on it.
\<close>
theorem pad_encoded_text_aligned:
  "length (pad_encoded_text encoded_text) mod 8 = 0
   \<and> get_byte_array (pad_encoded_text encoded_text) \<noteq> Inl SystemExit"
proof -
  have "get_byte_array (pad_encoded_text encoded_text)
          = get_byte_array_loop (pad_encoded_text encoded_text) 0 []"
    by (simp add: get_byte_array_def length_pad_encoded_text_mod)
  moreover have "get_byte_array_loop (pad_encoded_text encoded_text) 0 [] \<noteq> Inl SystemExit"
    using get_byte_array_loop_error by fastforce
  ultimately show ?thesis by (simp add: length_pad_encoded_text_mod)
qed

text \<open>
  Claim C10. A bit-string whose length is a multiple of 8 is packed into bytes without
  error, and expanding these bytes into 8 binary digits each, as \<^verbatim>\<open>decompress\<close>
  does, gives the bit-string back.
\<close>
theorem byte_packing_round_trip:
  assumes "is_bits padded_encoded_text" "length padded_encoded_text mod 8 = 0"
  shows "\<exists>b. get_byte_array padded_encoded_text = Inr b \<and> read_bit_string b = padded_encoded_text"
  using assms by (rule get_byte_array_bits)

text \<open>Claim C10 at the two bytes 7 and 160.\<close>

theorem byte_packing_round_trip_witness:
  "is_bits ''0000011110100000'' \<and> length ''0000011110100000'' mod 8 = 0
   \<and> get_byte_array ''0000011110100000'' = Inr [7, 160]
   \<and> read_bit_string [7, 160] = ''0000011110100000''"
proof -
  have a: "is_bits ''0000011110100000''" by (simp add: is_bit_def)
  have b: "length ''0000011110100000'' mod 8 = 0" by simp
  have c: "get_byte_array ''0000011110100000'' = Inr [7, 160]" by code_simp
  have d: "read_bit_string [7, 160] = ''0000011110100000''" by code_simp
  from byte_packing_round_trip[OF a b] a b c d show ?thesis by simp
qed

lemma take_pad_encoded_text:
  "take 8 (pad_encoded_text t) = format_08b (extra_padding t)"
  using extra_padding_range[of t] by (simp add: pad_encoded_text_def Let_def length_format_08b)

lemma drop_pad_encoded_text:
  "drop 8 (pad_encoded_text t) = t @ replicate (extra_padding t) CHR ''0''"
  using extra_padding_range[of t] by (simp add: pad_encoded_text_def Let_def length_format_08b)

lemma hd_read_bit_string:
  assumes "read_bit_string bs = s" "s \<noteq> []"
  shows "bs \<noteq> [] \<and> int_base2 (take 8 s) = Inr (unat (hd bs))"
proof -
  from assms obtain w ws where bs: "bs = w # ws" by (cases bs) auto
  have n: "unat w < 256" using unsigned_less[of w, where ?'a = nat] by simp
  have len: "length (rjust 8 CHR ''0'' (bin_digits (unat w))) = 8"
    using length_bin_digits[of "unat w" 8] n by (simp add: length_rjust)
  have "s = rjust 8 CHR ''0'' (bin_digits (unat w)) @ read_bit_string ws"
    using assms(1) by (simp add: bs read_bit_string_Cons)
  then have "take 8 s = format_08b (unat w)"
    using len by (simp add: format_08b_def)
  then show ?thesis by (simp add: bs format_08b_value)
qed

text \<open>
  Claim C2, as the code has it. The padding count is \<open>8 - len(B) mod 8\<close>: it lies
  between 1 and 8, it fills \<open>B\<close> up to a multiple of 8, it is 8 (a whole byte of
  zeros) when the length of \<open>B\<close> is a multiple of 8 already, and the first byte of the
  payload holds it.
\<close>

theorem padding_count:
  "extra_padding B = 8 - length B mod 8
   \<and> 1 \<le> extra_padding B \<and> extra_padding B \<le> 8
   \<and> (length B + extra_padding B) mod 8 = 0
   \<and> (length B mod 8 = 0 \<longrightarrow> extra_padding B = 8)
   \<and> (is_bits B \<longrightarrow> (\<exists>b. get_byte_array (pad_encoded_text B) = Inr b \<and> b \<noteq> []
                               \<and> unat (hd b) = extra_padding B))"
proof -
  have "\<exists>b. get_byte_array (pad_encoded_text B) = Inr b \<and> b \<noteq> [] \<and> unat (hd b) = extra_padding B"
    if bits: "is_bits B"
  proof -
    from get_byte_array_bits[OF is_bits_pad_encoded_text[OF bits] length_pad_encoded_text_mod]
    obtain b where b: "get_byte_array (pad_encoded_text B) = Inr b"
      "read_bit_string b = pad_encoded_text B" by blast
    have "pad_encoded_text B \<noteq> []" using length_pad_encoded_text[of B] by auto
    from hd_read_bit_string[OF b(2) this]
    have "b \<noteq> []" "int_base2 (format_08b (extra_padding B)) = Inr (unat (hd b))"
      by (simp_all add: take_pad_encoded_text)
    then show ?thesis using b(1) by (simp add: format_08b_value)
  qed
  then show ?thesis
    using extra_padding_range[of B] extra_padding_aligns[of B] by (auto simp: extra_padding_def)
qed

text \<open>Claim C2, as the code has it, at the eight bits 01010101.\<close>

theorem padding_count_witness:
  "length ''01010101'' mod 8 = 0 \<and> is_bits ''01010101'' \<and> extra_padding ''01010101'' = 8
   \<and> get_byte_array (pad_encoded_text ''01010101'') = Inr [8, 85, 0]"
proof -
  have a: "is_bits ''01010101''" by (simp add: is_bit_def)
  have c: "get_byte_array (pad_encoded_text ''01010101'') = Inr [8, 85, 0]" by code_simp
  from padding_count[of "''01010101''"] a c show ?thesis by simp
qed

text \<open>
  Claim C2 as the specification states it fails at the eight bits 01010101, the
  encoding of the text abababab: the formula
  \<open>(8 - len(B) mod 8) mod 8\<close> gives 0, the code pads with 8 zeros and writes 8 into
  the first byte.
\<close>

theorem padding_count_counterexample:
  "(case compress new_HuffmanCoding ''abababab'' of
      Inl e \<Rightarrow> False
    | Inr (self1, b) \<Rightarrow> get_encoded_text self1 ''abababab'' = Inr ''01010101'' \<and> b = [8, 85, 0])
   \<and> extra_padding ''01010101'' = 8
   \<and> (8 - length ''01010101'' mod 8) mod 8 = (0::nat)
   \<and> get_byte_array (pad_encoded_text ''01010101'') = Inr [8, 85, 0]"
  by code_simp

text \<open>
  Claim C6, as the code has it. When the first 8 bits hold a padding count of at
  least 1, \<^verbatim>\<open>remove_padding\<close> returns what follows the first 8 bits without its
  last \<open>pad\<close> bits (nothing, when fewer follow).
\<close>
theorem remove_padding_drops_last:
  assumes "int_base2 (take 8 padded_encoded_text) = Inr pad" "0 < pad"
  shows "remove_padding padded_encoded_text = Inr (rev (drop pad (rev (drop 8 padded_encoded_text))))"
proof -
  have "rev (drop pad (rev xs)) = take (length xs - pad) xs" for xs :: string
    by (simp add: rev_drop)
  then have "rev (drop pad (rev (drop 8 padded_encoded_text)))
        = take (length (drop 8 padded_encoded_text) - pad) (drop 8 padded_encoded_text)" .
  then show ?thesis using assms by (simp add: remove_padding_def Let_def)
qed

text \<open>Claim C6, as the code has it, at a padding count of 2.\<close>

theorem remove_padding_drops_last_witness:
  "int_base2 (take 8 ''0000001010101100'') = Inr 2 \<and> (0::nat) < 2
   \<and> remove_padding ''0000001010101100'' = Inr ''101011''"
proof -
  have a: "int_base2 (take 8 ''0000001010101100'') = Inr 2" by code_simp
  have b: "(0::nat) < 2" by simp
  from remove_padding_drops_last[OF a b] a show ?thesis by simp
qed

text \<open>
  Claim C6 as the specification states it fails at a padding count of 0: the eight bits
  after the header are all dropped, not all kept.
\<close>

theorem remove_padding_zero_counterexample:
  "int_base2 (take 8 ''0000000010101010'') = Inr 0
   \<and> drop 8 ''0000000010101010'' = ''10101010''
   \<and> remove_padding ''0000000010101010'' = Inr []"
  by code_simp

lemma remove_padding_pad_encoded_text: "remove_padding (pad_encoded_text t) = Inr t"
  using extra_padding_range[of t]
  by (simp add: remove_padding_def Let_def take_pad_encoded_text drop_pad_encoded_text format_08b_value)

section \<open>Encoding against a table\<close>

lemma get_encoded_text_loop_KeyError:
  "(get_encoded_text_loop cds text acc = Inl e) = (e = KeyError \<and> (\<exists>c\<in>set text. cds c = None))"
  by (induction "text" arbitrary: acc) (auto split: option.splits)

lemma get_encoded_text_loop_Inr:
  "(\<forall>c\<in>set text. cds c \<noteq> None)
   \<Longrightarrow> get_encoded_text_loop cds text acc = Inr (acc @ concat (map (\<lambda>c. the (cds c)) text))"
  by (induction "text" arbitrary: acc) (auto split: option.splits)

lemma get_byte_array_error:
  "get_byte_array s = Inl e \<Longrightarrow> e = ValueError \<or> e = SystemExit"
  by (auto simp: get_byte_array_def split: if_splits dest: get_byte_array_loop_error)

text \<open>
  Claim C9. Encoding raises KeyError (the unknown-symbol failure) exactly when some
  symbol of the text has no entry in \<^verbatim>\<open>codes\<close>; this holds for
  \<^verbatim>\<open>get_encoded_text\<close> and for the whole second half of \<^verbatim>\<open>compress\<close>, and
  then no byte of a payload is returned.
\<close>

theorem unknown_symbol:
  "(get_encoded_text self text = Inl KeyError) = (\<exists>c\<in>set text. codes self c = None)
   \<and> (encode_payload self text = Inl KeyError) = (\<exists>c\<in>set text. codes self c = None)
   \<and> ((\<exists>c\<in>set text. codes self c = None) \<longrightarrow> (\<forall>b. encode_payload self text \<noteq> Inr b))"
proof -
  have a: "(get_encoded_text self text = Inl KeyError) = (\<exists>c\<in>set text. codes self c = None)"
    by (simp add: get_encoded_text_def get_encoded_text_loop_KeyError)
  have b: "(encode_payload self text = Inl KeyError) = (get_encoded_text self text = Inl KeyError)"
  proof (cases "get_encoded_text self text")
    case (Inl e)
    then show ?thesis by (simp add: encode_payload_def)
  next
    case (Inr enc)
    then have "encode_payload self text \<noteq> Inl KeyError"
      using get_byte_array_error[of "pad_encoded_text enc" KeyError]
      by (auto simp: encode_payload_def Let_def)
    then show ?thesis using Inr by simp
  qed
  have c: "encode_payload self text \<noteq> Inr b" if "get_encoded_text self text = Inl KeyError" for b
    using that by (simp add: encode_payload_def)
  show ?thesis using a b c by metis
qed

text \<open>Claim C9 at the text ab with a table for a only.\<close>

theorem unknown_symbol_witness:
  "(\<exists>c\<in>set ''ab''. codes \<lparr>heap = [], codes = [CHR ''a'' \<mapsto> ''0''], reverse_mapping = [''0'' \<mapsto> CHR ''a'']\<rparr> c = None)
   \<and> encode_payload \<lparr>heap = [], codes = [CHR ''a'' \<mapsto> ''0''], reverse_mapping = [''0'' \<mapsto> CHR ''a'']\<rparr> ''ab'' = Inl KeyError"
  using unknown_symbol[of "\<lparr>heap = [], codes = [CHR ''a'' \<mapsto> ''0''], reverse_mapping = [''0'' \<mapsto> CHR ''a'']\<rparr>" "''ab''"]
  by simp

section \<open>Decoding\<close>

lemma decode_text_loop_last_unmatched:
  "decode_text_loop rm xs cur dec = (cur', dec') \<Longrightarrow> cur' \<noteq> [] \<Longrightarrow> xs \<noteq> [] \<Longrightarrow> rm cur' = None"
proof (induction xs arbitrary: cur dec)
  case Nil
  then show ?case by simp
next
  case (Cons b xs)
  show ?case
  proof (cases xs)
    case Nil
    with Cons.prems show ?thesis by (auto simp: Let_def split: option.splits)
  next
    case (Cons y ys)
    with Cons.prems Cons.IH show ?thesis
      by (auto simp: Let_def split: option.splits simp del: decode_text_loop.simps(2)
               simp add: decode_text_loop.simps(2)[of rm b])
  qed
qed

lemma decode_text_loop_split:
  "decode_text_loop rm xs cur dec = (cur', dec')
   \<Longrightarrow> (cur' = cur @ xs \<and> dec' = dec)
       \<or> (\<exists>xs1. xs = xs1 @ cur' \<and> decode_text_loop rm xs1 cur dec = ([], dec'))"
proof (induction xs arbitrary: cur dec)
  case Nil
  then show ?case by simp
next
  case (Cons b xs)
  show ?case
  proof (cases "rm (cur @ [b])")
    case None
    with Cons.prems have "decode_text_loop rm xs (cur @ [b]) dec = (cur', dec')" by simp
    from Cons.IH[OF this] show ?thesis
    proof
      assume "cur' = (cur @ [b]) @ xs \<and> dec' = dec"
      then show ?thesis by simp
    next
      assume "\<exists>xs1. xs = xs1 @ cur' \<and> decode_text_loop rm xs1 (cur @ [b]) dec = ([], dec')"
      then obtain xs1 where "xs = xs1 @ cur'" "decode_text_loop rm xs1 (cur @ [b]) dec = ([], dec')"
        by blast
      then have "b # xs = (b # xs1) @ cur' \<and> decode_text_loop rm (b # xs1) cur dec = ([], dec')"
        using None by simp
      then show ?thesis by blast
    qed
  next
    case (Some ch)
    with Cons.prems have "decode_text_loop rm xs [] (dec @ [ch]) = (cur', dec')" by simp
    from Cons.IH[OF this] show ?thesis
    proof
      assume "cur' = [] @ xs \<and> dec' = dec @ [ch]"
      then have "b # xs = [b] @ cur' \<and> decode_text_loop rm [b] cur dec = ([], dec')"
        using Some by simp
      then show ?thesis by blast
    next
      assume "\<exists>xs1. xs = xs1 @ cur' \<and> decode_text_loop rm xs1 [] (dec @ [ch]) = ([], dec')"
      then obtain xs1 where "xs = xs1 @ cur'" "decode_text_loop rm xs1 [] (dec @ [ch]) = ([], dec')"
        by blast
      then have "b # xs = (b # xs1) @ cur' \<and> decode_text_loop rm (b # xs1) cur dec = ([], dec')"
        using Some by simp
      then show ?thesis by blast
    qed
  qed
qed

text \<open>
  Claim C5, as the code has it. When the bits are exhausted while the accumulator is
  not empty, the accumulator matches no entry of \<^verbatim>\<open>reverse_mapping\<close> and
  \<^verbatim>\<open>decode_text\<close> raises nothing: it returns the symbols decoded so far, which
  are the decoding of the input without these last unmatched bits.
\<close>

theorem decode_text_discards_leftover:
  assumes "decode_text_loop (reverse_mapping self) encoded_text [] [] = (current_code, decoded_text)"
    and "current_code \<noteq> []"
  shows "reverse_mapping self current_code = None
         \<and> decode_text self encoded_text = decoded_text
         \<and> (\<exists>matched. encoded_text = matched @ current_code
                       \<and> decode_text self matched = decoded_text)"
proof -
  have ne: "encoded_text \<noteq> []" using assms by auto
  have a: "reverse_mapping self current_code = None"
    using decode_text_loop_last_unmatched[OF assms(1,2) ne] .
  have b: "decode_text self encoded_text = decoded_text"
    using assms(1) by (simp add: decode_text_def)
  from decode_text_loop_split[OF assms(1)]
  have "\<exists>matched. encoded_text = matched @ current_code \<and> decode_text self matched = decoded_text"
  proof
    assume "current_code = [] @ encoded_text \<and> decoded_text = []"
    then have "encoded_text = [] @ current_code \<and> decode_text self [] = decoded_text"
      by (simp add: decode_text_def)
    then show ?thesis by blast
  next
    assume "\<exists>xs1. encoded_text = xs1 @ current_code
                  \<and> decode_text_loop (reverse_mapping self) xs1 [] [] = ([], decoded_text)"
    then show ?thesis by (auto simp: decode_text_def)
  qed
  with a b show ?thesis by simp
qed

text \<open>Claim C5, as the code has it, at the bits 01 with the code 0 for a.\<close>

theorem decode_text_discards_leftover_witness:
  "decode_text_loop (reverse_mapping \<lparr>heap = [], codes = [CHR ''a'' \<mapsto> ''0''], reverse_mapping = [''0'' \<mapsto> CHR ''a'']\<rparr>) ''01'' [] [] = (''1'', ''a'')
   \<and> ''1'' \<noteq> []
   \<and> decode_text \<lparr>heap = [], codes = [CHR ''a'' \<mapsto> ''0''], reverse_mapping = [''0'' \<mapsto> CHR ''a'']\<rparr> ''01'' = ''a''"
proof -
  let ?s = "\<lparr>heap = [], codes = [CHR ''a'' \<mapsto> ''0''], reverse_mapping = [''0'' \<mapsto> CHR ''a'']\<rparr>"
  have a: "decode_text_loop (reverse_mapping ?s) ''01'' [] [] = (''1'', ''a'')" by simp
  have b: "''1'' \<noteq> []" by simp
  from decode_text_discards_leftover[OF a b] a show ?thesis by simp
qed

text \<open>
  Claim C5 as the specification states it fails at the bits 01 with the code 0 for a:
  the accumulator ends as 1, which matches nothing, and \<^verbatim>\<open>decompress\<close> of the
  two bytes 6 and 64 returns the text a without any error.
\<close>

theorem truncated_payload_counterexample:
  "decode_text_loop (reverse_mapping \<lparr>heap = [], codes = [CHR ''a'' \<mapsto> ''0''], reverse_mapping = [''0'' \<mapsto> CHR ''a'']\<rparr>) ''01'' [] [] = (''1'', ''a'')
   \<and> reverse_mapping \<lparr>heap = [], codes = [CHR ''a'' \<mapsto> ''0''], reverse_mapping = [''0'' \<mapsto> CHR ''a'']\<rparr> ''1'' = None
   \<and> decompress \<lparr>heap = [], codes = [CHR ''a'' \<mapsto> ''0''], reverse_mapping = [''0'' \<mapsto> CHR ''a'']\<rparr> [6, 64] = Inr ''a''"
proof -
  have "read_bit_string [6, 64] = ''0000011001000000''" by code_simp
  moreover have "remove_padding ''0000011001000000'' = Inr ''01''" by code_simp
  ultimately show ?thesis by (simp add: decompress_def decode_text_def)
qed

section \<open>The tree and the code tables\<close>

lemma paths_prefix:
  "(a, p) \<in> set (paths t) \<Longrightarrow> (b, q) \<in> set (paths t) \<Longrightarrow> prefix p q \<Longrightarrow> p = q \<and> a = b"
  by (induction t arbitrary: p q rule: paths.induct) auto

lemma paths_is_bits: "(a, p) \<in> set (paths t) \<Longrightarrow> is_bits p"
  by (induction t arbitrary: p rule: paths.induct) (auto simp: is_bit_def)

lemma alphabet_simps [simp]:
  "alphabet (HeapNode (Some c) f l r) = [c]"
  "alphabet (HeapNode None f (Some l1) (Some r1)) = alphabet l1 @ alphabet r1"
  by (simp_all add: alphabet_def case_prod_unfold comp_def)

lemma helper_codes_other:
  "wf_node t \<Longrightarrow> a \<notin> set (alphabet t)
   \<Longrightarrow> codes (make_codes_helper (Some t) cur self) a = codes self a"
  by (induction t arbitrary: cur self rule: paths.induct) simp_all

lemma helper_codes_dom:
  "wf_node t \<Longrightarrow> a \<in> set (alphabet t) \<Longrightarrow> codes (make_codes_helper (Some t) cur self) a \<noteq> None"
proof (induction t arbitrary: cur self rule: paths.induct)
  case (1 c f l r)
  then show ?case by simp
next
  case (2 f l r)
  from "2.prems" have wf: "wf_node l" "wf_node r" by simp_all
  let ?s1 = "make_codes_helper (Some l) (cur @ ''0'') self"
  show ?case
  proof (cases "a \<in> set (alphabet r)")
    case True
    from "2.IH"(2)[OF wf(2) True] show ?thesis by simp
  next
    case False
    then have "a \<in> set (alphabet l)" using "2.prems"(2) by simp
    from "2.IH"(1)[OF wf(1) this] have "codes ?s1 a \<noteq> None" .
    then show ?thesis using helper_codes_other[OF wf(2) False, of "cur @ ''1''" ?s1] by simp
  qed
qed simp_all

lemma helper_codes_from:
  "wf_node t \<Longrightarrow> codes (make_codes_helper (Some t) cur self) a = Some q
   \<Longrightarrow> codes self a = Some q \<or> (\<exists>p. (a, p) \<in> set (paths t) \<and> q = cur @ p)"
proof (induction t arbitrary: cur self q rule: paths.induct)
  case (1 c f l r)
  then show ?case by (auto split: if_splits)
next
  case (2 f l r)
  from "2.prems" have wf: "wf_node l" "wf_node r" by simp_all
  from "2.prems"(2)
  have "codes (make_codes_helper (Some r) (cur @ ''1'')
                 (make_codes_helper (Some l) (cur @ ''0'') self)) a = Some q" by simp
  from "2.IH"(2)[OF wf(2) this]
  show ?case
  proof
    assume "codes (make_codes_helper (Some l) (cur @ ''0'') self) a = Some q"
    from "2.IH"(1)[OF wf(1) this] show ?thesis by auto
  next
    assume "\<exists>p. (a, p) \<in> set (paths r) \<and> q = (cur @ ''1'') @ p"
    then show ?thesis by auto
  qed
qed simp_all

lemma helper_codes_at:
  "wf_node t \<Longrightarrow> distinct (alphabet t) \<Longrightarrow> (a, p) \<in> set (paths t)
   \<Longrightarrow> codes (make_codes_helper (Some t) cur self) a = Some (cur @ p)"
proof (induction t arbitrary: cur self p rule: paths.induct)
  case (1 c f l r)
  then show ?case by simp
next
  case (2 f l r)
  from "2.prems" have wf: "wf_node l" "wf_node r"
    and d: "distinct (alphabet l)" "distinct (alphabet r)" "set (alphabet l) \<inter> set (alphabet r) = {}"
    by simp_all
  let ?s1 = "make_codes_helper (Some l) (cur @ ''0'') self"
  from "2.prems"(3) consider p' where "(a, p') \<in> set (paths l)" "p = CHR ''0'' # p'"
    | p' where "(a, p') \<in> set (paths r)" "p = CHR ''1'' # p'"
    by auto
  then show ?case
  proof cases
    case 1
    then have "a \<in> set (alphabet l)" by (force simp: alphabet_def)
    then have "a \<notin> set (alphabet r)" using d(3) by auto
    then have "codes (make_codes_helper (Some r) (cur @ ''1'') ?s1) a = codes ?s1 a"
      using helper_codes_other[OF wf(2)] by blast
    also have "\<dots> = Some ((cur @ ''0'') @ p')" using "2.IH"(1)[OF wf(1) d(1) 1(1)] .
    finally show ?thesis using 1(2) by simp
  next
    case 2
    from "2.IH"(2)[OF wf(2) d(2) 2(1)] show ?thesis using 2(2) by simp
  qed
qed simp_all

lemma paths_left: "(a, p) \<in> set (paths l) \<Longrightarrow> (a, CHR ''0'' # p) \<in> set (paths (HeapNode None f (Some l) (Some r)))"
  by force

lemma paths_right: "(a, p) \<in> set (paths r) \<Longrightarrow> (a, CHR ''1'' # p) \<in> set (paths (HeapNode None f (Some l) (Some r)))"
  by force

lemma helper_rm_other:
  "wf_node t \<Longrightarrow> (\<And>a p. (a, p) \<in> set (paths t) \<Longrightarrow> q \<noteq> cur @ p)
   \<Longrightarrow> reverse_mapping (make_codes_helper (Some t) cur self) q = reverse_mapping self q"
proof (induction t arbitrary: cur self rule: paths.induct)
  case (1 c f l r)
  from "1.prems"(2)[of c "[]"] show ?case by simp
next
  case (2 f l r)
  from "2.prems" have wf: "wf_node l" "wf_node r" by simp_all
  have l: "q \<noteq> (cur @ ''0'') @ p" if "(a, p) \<in> set (paths l)" for a p
    using "2.prems"(2)[OF paths_left[OF that]] by simp
  have r: "q \<noteq> (cur @ ''1'') @ p" if "(a, p) \<in> set (paths r)" for a p
    using "2.prems"(2)[OF paths_right[OF that]] by simp
  show ?case
    using "2.IH"(1)[OF wf(1) l] "2.IH"(2)[OF wf(2) r] by simp
qed simp_all

lemma helper_rm_from:
  "wf_node t \<Longrightarrow> reverse_mapping (make_codes_helper (Some t) cur self) q = Some a
   \<Longrightarrow> reverse_mapping self q = Some a \<or> (\<exists>p. (a, p) \<in> set (paths t) \<and> q = cur @ p)"
proof (induction t arbitrary: cur self rule: paths.induct)
  case (1 c f l r)
  then show ?case by (auto split: if_splits)
next
  case (2 f l r)
  from "2.prems" have wf: "wf_node l" "wf_node r" by simp_all
  from "2.prems"(2)
  have "reverse_mapping (make_codes_helper (Some r) (cur @ ''1'')
                 (make_codes_helper (Some l) (cur @ ''0'') self)) q = Some a" by simp
  from "2.IH"(2)[OF wf(2) this]
  show ?case
  proof
    assume "reverse_mapping (make_codes_helper (Some l) (cur @ ''0'') self) q = Some a"
    from "2.IH"(1)[OF wf(1) this] show ?thesis by auto
  next
    assume "\<exists>p. (a, p) \<in> set (paths r) \<and> q = (cur @ ''1'') @ p"
    then show ?thesis by auto
  qed
qed simp_all

lemma helper_rm_at:
  "wf_node t \<Longrightarrow> (a, p) \<in> set (paths t)
   \<Longrightarrow> reverse_mapping (make_codes_helper (Some t) cur self) (cur @ p) = Some a"
proof (induction t arbitrary: cur self p rule: paths.induct)
  case (1 c f l r)
  then show ?case by simp
next
  case (2 f l r)
  from "2.prems" have wf: "wf_node l" "wf_node r" by simp_all
  let ?s1 = "make_codes_helper (Some l) (cur @ ''0'') self"
  from "2.prems"(2) consider p' where "(a, p') \<in> set (paths l)" "p = CHR ''0'' # p'"
    | p' where "(a, p') \<in> set (paths r)" "p = CHR ''1'' # p'"
    by auto
  then show ?case
  proof cases
    case 1
    have "cur @ p \<noteq> (cur @ ''1'') @ p2" for p2 using 1(2) by simp
    from helper_rm_other[OF wf(2) this]
    have "reverse_mapping (make_codes_helper (Some r) (cur @ ''1'') ?s1) (cur @ p)
            = reverse_mapping ?s1 (cur @ p)" .
    also have "\<dots> = Some a" using "2.IH"(1)[OF wf(1) 1(1), of "cur @ ''0''" self] 1(2) by simp
    finally show ?thesis by simp
  next
    case 2
    from "2.IH"(2)[OF wf(2) 2(1), of "cur @ ''1''" ?s1] show ?thesis using 2(2) by simp
  qed
qed simp_all

subsection \<open>The heap as a forest\<close>

lemma forest_alphabet_heappush:
  "forest_alphabet (heappush h x) = mset (alphabet x) + forest_alphabet h"
  by (simp add: forest_alphabet_def mset_heappush)

lemma forest_inv_heappush:
  "forest_inv (heappush h x) = (wf_node x \<and> forest_inv h)"
proof -
  have "set (heappush h x) = insert x (set h)"
    using mset_heappush[of h x] by (metis set_mset_add_mset_insert set_mset_mset)
  then show ?thesis by (simp add: forest_inv_def)
qed

lemma heappop_forest:
  assumes "heappop h = Inr (x, h')"
  shows "forest_alphabet h = mset (alphabet x) + forest_alphabet h'"
    and "forest_inv h = (wf_node x \<and> forest_inv h')"
proof -
  from heappop_Inr[OF assms] have m: "mset h = add_mset x (mset h')" by simp
  show "forest_alphabet h = mset (alphabet x) + forest_alphabet h'"
    by (simp add: forest_alphabet_def m)
  have "set h = insert x (set h')"
    using m by (metis set_mset_add_mset_insert set_mset_mset)
  then show "forest_inv h = (wf_node x \<and> forest_inv h')" by (simp add: forest_inv_def)
qed

lemma make_heap_foldl:
  "foldl (\<lambda>self (key, f). (let node = HeapNode (Some key) f None None
                             in self\<lparr>heap := heappush (heap self) node\<rparr>)) self frequency = self'
   \<Longrightarrow> codes self' = codes self \<and> reverse_mapping self' = reverse_mapping self
       \<and> length (heap self') = length (heap self) + length frequency
       \<and> forest_alphabet (heap self') = mset (map fst frequency) + forest_alphabet (heap self)
       \<and> forest_inv (heap self') = forest_inv (heap self)"
proof (induction frequency arbitrary: self)
  case Nil
  then show ?case by auto
next
  case (Cons kv frequency)
  obtain key f where kv: "kv = (key, f)" by (cases kv)
  let ?s1 = "self\<lparr>heap := heappush (heap self) (HeapNode (Some key) f None None)\<rparr>"
  from Cons.prems have "foldl (\<lambda>self (key, f). (let node = HeapNode (Some key) f None None
                             in self\<lparr>heap := heappush (heap self) node\<rparr>)) ?s1 frequency = self'"
    by (simp add: kv Let_def)
  from Cons.IH[OF this] show ?case
    by (simp add: kv length_heappush forest_alphabet_heappush forest_inv_heappush)
qed

lemma make_heap_props:
  "codes (make_heap self frequency) = codes self"
  "reverse_mapping (make_heap self frequency) = reverse_mapping self"
  "length (heap (make_heap self frequency)) = length (heap self) + length frequency"
  "forest_alphabet (heap (make_heap self frequency)) = mset (map fst frequency) + forest_alphabet (heap self)"
  "forest_inv (heap (make_heap self frequency)) = forest_inv (heap self)"
  using make_heap_foldl[OF refl, of self frequency] unfolding make_heap_def by blast+

lemma merge_nodes_props:
  "\<exists>self'. merge_nodes self = Inr self'
     \<and> codes self' = codes self \<and> reverse_mapping self' = reverse_mapping self
     \<and> length (heap self') = min 1 (length (heap self))
     \<and> forest_alphabet (heap self') = forest_alphabet (heap self)
     \<and> (forest_inv (heap self) \<longrightarrow> forest_inv (heap self'))"
proof (induction self rule: merge_nodes.induct)
  case (1 self)
  show ?case
  proof (cases "length (heap self) > 1")
    case False
    then have "merge_nodes self = Inr self" by (subst merge_nodes.simps) simp
    then show ?thesis using False by auto
  next
    case True
    then have ne: "heap self \<noteq> []" by auto
    from mset_heappop[OF ne] obtain node1 heap1 where p1: "heappop (heap self) = Inr (node1, heap1)"
      by blast
    from heappop_Inr[OF p1] True have ne1: "heap1 \<noteq> []" by auto
    from mset_heappop[OF ne1] obtain node2 heap2 where p2: "heappop heap1 = Inr (node2, heap2)"
      by blast
    let ?merged = "HeapNode None (freq node1 + freq node2) (Some node1) (Some node2)"
    let ?s1 = "self\<lparr>heap := heappush heap2 ?merged\<rparr>"
    have step: "merge_nodes self = merge_nodes ?s1"
      using True p1 p2 by (subst merge_nodes.simps) (simp add: Let_def)
    from "1.IH"[OF True p1 refl p2 refl refl]
    obtain self' where r: "merge_nodes ?s1 = Inr self'"
      "codes self' = codes ?s1" "reverse_mapping self' = reverse_mapping ?s1"
      "length (heap self') = min 1 (length (heap ?s1))"
      "forest_alphabet (heap self') = forest_alphabet (heap ?s1)"
      "forest_inv (heap ?s1) \<longrightarrow> forest_inv (heap self')"
      by blast
    have "Suc (length heap1) = length (heap self)" "Suc (length heap2) = length heap1"
      using heappop_Inr[OF p1] heappop_Inr[OF p2] by blast+
    then have len: "length (heap ?s1) = length (heap self) - 1"
      by (simp add: length_heappush)
    have alph: "forest_alphabet (heap ?s1) = forest_alphabet (heap self)"
      using heappop_forest(1)[OF p1] heappop_forest(1)[OF p2]
      by (simp add: forest_alphabet_heappush)
    have inv: "forest_inv (heap self) \<Longrightarrow> forest_inv (heap ?s1)"
      using heappop_forest(2)[OF p1] heappop_forest(2)[OF p2]
      by (simp add: forest_inv_heappush)
    show ?thesis
      using step r len alph inv True by auto
  qed
qed

subsection \<open>The tables of a frequency table\<close>

lemma heappop_single: "heappop [x] = Inr (x, [])"
  by (simp add: heappop_def)

lemma forest_single:
  "forest_alphabet [t] = mset (alphabet t)" "forest_inv [t] = wf_node t"
  by (simp_all add: forest_alphabet_def forest_inv_def)

lemma forest_new:
  "forest_alphabet (heap (new_HuffmanCoding :: 'a HuffmanCoding)) = {#}"
  "forest_inv (heap (new_HuffmanCoding :: 'a HuffmanCoding))"
  by (simp_all add: forest_alphabet_def forest_inv_def new_HuffmanCoding_def)

lemma make_tables_root:
  assumes "frequency \<noteq> []"
  shows "\<exists>root. wf_node root \<and> mset (alphabet root) = mset (map fst frequency)
           \<and> make_tables new_HuffmanCoding frequency
               = Inr (make_codes_helper (Some root) [] new_HuffmanCoding)"
proof -
  let ?s0 = "make_heap (new_HuffmanCoding :: 'a HuffmanCoding) frequency"
  from merge_nodes_props[of ?s0]
  obtain s1 where s1: "merge_nodes ?s0 = Inr s1"
    "codes s1 = codes ?s0" "reverse_mapping s1 = reverse_mapping ?s0"
    "length (heap s1) = min 1 (length (heap ?s0))"
    "forest_alphabet (heap s1) = forest_alphabet (heap ?s0)"
    "forest_inv (heap ?s0) \<longrightarrow> forest_inv (heap s1)"
    by blast
  have "length (heap ?s0) = length frequency"
    by (simp add: make_heap_props new_HuffmanCoding_def)
  then have "length (heap s1) = 1" using s1(4) assms by (cases frequency) auto
  then obtain root where h: "heap s1 = [root]"
    by (cases "heap s1") auto
  have wf: "wf_node root"
    using s1(6) h by (simp add: make_heap_props forest_new forest_single)
  have al: "mset (alphabet root) = mset (map fst frequency)"
    using s1(5) h by (simp add: make_heap_props forest_new forest_single)
  have "s1\<lparr>heap := []\<rparr> = new_HuffmanCoding"
    using s1(2,3) by (simp add: make_heap_props new_HuffmanCoding_def)
  then have "make_tables new_HuffmanCoding frequency
               = Inr (make_codes_helper (Some root) [] new_HuffmanCoding)"
    by (simp add: make_tables_def s1(1) make_codes_def h heappop_single)
  with wf al show ?thesis by blast
qed

text \<open>
  Claim C7. For every non-empty frequency table, building the heap, merging and
  generating the codes from a new object succeeds, the resulting table has a code for
  exactly the symbols of the frequency table, and the code of a symbol is never a
  prefix of the code of another symbol.
\<close>

theorem codes_prefix_free:
  assumes "frequency \<noteq> []"
  shows "\<exists>self1. make_tables new_HuffmanCoding frequency = Inr self1
           \<and> dom (codes self1) = fst ` set frequency
           \<and> (\<forall>a b ca cb. a \<noteq> b \<and> codes self1 a = Some ca \<and> codes self1 b = Some cb
                  \<longrightarrow> \<not> prefix ca cb)"
proof -
  from make_tables_root[OF assms] obtain root where r: "wf_node root"
    "mset (alphabet root) = mset (map fst frequency)"
    "make_tables new_HuffmanCoding frequency = Inr (make_codes_helper (Some root) [] new_HuffmanCoding)"
    by blast
  let ?s = "make_codes_helper (Some root) [] new_HuffmanCoding"
  have al: "set (alphabet root) = fst ` set frequency"
    using r(2) by (metis set_mset_mset set_map)
  have from_paths: "(a, ca) \<in> set (paths root)" if "codes ?s a = Some ca" for a ca
    using helper_codes_from[OF r(1) that] by (simp add: new_HuffmanCoding_def)
  have "\<not> prefix ca cb" if "a \<noteq> b" "codes ?s a = Some ca" "codes ?s b = Some cb" for a b ca cb
    using paths_prefix[of a ca root b cb] from_paths[OF that(2)] from_paths[OF that(3)] that(1)
    by blast
  moreover have "dom (codes ?s) = fst ` set frequency"
  proof
    show "dom (codes ?s) \<subseteq> fst ` set frequency"
    proof
      fix a assume "a \<in> dom (codes ?s)"
      then obtain ca where "codes ?s a = Some ca" by blast
      from from_paths[OF this] have "a \<in> set (alphabet root)" by (force simp: alphabet_def)
      then show "a \<in> fst ` set frequency" using al by simp
    qed
    show "fst ` set frequency \<subseteq> dom (codes ?s)"
      using helper_codes_dom[OF r(1)] al by blast
  qed
  ultimately show ?thesis using r(3) by blast
qed

text \<open>Claim C7 at the frequencies a:3, b:2, c:1, with codes 0, 11 and 10.\<close>

theorem codes_prefix_free_witness:
  "[(CHR ''a'', 3), (CHR ''b'', 2), (CHR ''c'', 1 :: int)] \<noteq> []
   \<and> (case make_tables new_HuffmanCoding [(CHR ''a'', 3), (CHR ''b'', 2), (CHR ''c'', 1)] of
        Inl e \<Rightarrow> False
      | Inr self1 \<Rightarrow> codes self1 CHR ''a'' = Some ''0'' \<and> codes self1 CHR ''b'' = Some ''11''
                     \<and> codes self1 CHR ''c'' = Some ''10'')
   \<and> \<not> prefix ''0'' ''11''"
proof -
  let ?f = "[(CHR ''a'', 3), (CHR ''b'', 2), (CHR ''c'', 1 :: int)]"
  have ne: "?f \<noteq> []" by simp
  have ev: "case make_tables new_HuffmanCoding ?f of
        Inl e \<Rightarrow> False
      | Inr self1 \<Rightarrow> codes self1 CHR ''a'' = Some ''0'' \<and> codes self1 CHR ''b'' = Some ''11''
                     \<and> codes self1 CHR ''c'' = Some ''10''"
    by code_simp
  from codes_prefix_free[OF ne] obtain self1 where s:
    "make_tables new_HuffmanCoding ?f = Inr self1"
    "\<forall>a b ca cb. a \<noteq> b \<and> codes self1 a = Some ca \<and> codes self1 b = Some cb \<longrightarrow> \<not> prefix ca cb"
    by blast
  from ev s(1) have c: "codes self1 CHR ''a'' = Some ''0''" "codes self1 CHR ''b'' = Some ''11''"
    by simp_all
  have "CHR ''a'' \<noteq> CHR ''b''" by simp
  with s(2) c have "\<not> prefix ''0'' ''11''" by blast
  with ne ev show ?thesis by blast
qed

text \<open>
  Claim C3, what the code does. For a frequency table with one symbol the root is a
  leaf, \<^verbatim>\<open>make_codes\<close> starts from the empty code and the leaf gets it: the code
  of the only symbol is the empty bit-string, not one bit.
\<close>

theorem single_symbol_empty_code:
  "\<exists>self1. make_tables new_HuffmanCoding [(a, f)] = Inr self1
     \<and> codes self1 a = Some [] \<and> reverse_mapping self1 [] = Some a"
  by (simp add: make_tables_def make_heap_def heappush_def siftdown_def siftdown_loop.simps
      merge_nodes.simps make_codes_def heappop_def new_HuffmanCoding_def)

text \<open>
  Claim C4, what the code does. On the empty text the frequency table and the heap
  are empty, building the heap and merging do nothing, and \<^verbatim>\<open>make_codes\<close> pops
  from the empty heap: \<^verbatim>\<open>compress\<close> ends with IndexError and writes no payload.
\<close>

theorem empty_input_IndexError:
  "make_frequency_dict ([] :: string) = []
   \<and> merge_nodes (make_heap new_HuffmanCoding ([] :: (char \<times> int) list)) = Inr new_HuffmanCoding
   \<and> make_codes (new_HuffmanCoding :: char HuffmanCoding) = Inl IndexError
   \<and> compress new_HuffmanCoding [] = Inl IndexError"
  by (simp add: compress_def rstrip_def make_frequency_dict_def make_tables_def make_heap_def
      merge_nodes.simps make_codes_def heappop_def new_HuffmanCoding_def)

text \<open>
  The second half of \<^verbatim>\<open>compress\<close> on the empty text, which the first half never
  lets it reach: whatever the tables are, encoding, padding and packing give two bytes,
  the header 8 and one byte of padding, and decompressing them gives the empty text.
\<close>

lemma empty_text_payload:
  "encode_payload self [] = Inr [8, 0] \<and> decompress self [8, 0] = Inr []"
proof -
  have a: "get_byte_array (pad_encoded_text []) = Inr [8, 0]" by code_simp
  have b: "read_bit_string [8, 0] = ''0000100000000000''" by code_simp
  have c: "remove_padding ''0000100000000000'' = Inr []" by code_simp
  show ?thesis
    by (simp add: encode_payload_def get_encoded_text_def Let_def a decompress_def b c decode_text_def)
qed

section \<open>The round trip\<close>

lemma make_frequency_dict_step:
  fixes frequency :: "('a \<times> int) list"
  defines "step \<equiv> (\<lambda>frequency character.
              (let frequency1 = (if map_of frequency character = None
                                 then AList.update character 0 frequency else frequency)
               in case map_of frequency1 character of
                    Some n \<Rightarrow> AList.update character (n + 1) frequency1
                  | None \<Rightarrow> frequency1))"
  assumes "distinct (map fst frequency)"
  shows "distinct (map fst (foldl step frequency cs))
         \<and> set (map fst (foldl step frequency cs)) = set (map fst frequency) \<union> set cs"
  using assms(2)
proof (induction cs arbitrary: frequency)
  case Nil
  then show ?case by simp
next
  case (Cons c cs)
  have d: "distinct (map fst (step frequency c))"
    using Cons.prems by (auto simp: step_def Let_def distinct_update split: option.splits)
  have s: "set (map fst (step frequency c)) = insert c (set (map fst frequency))"
    by (auto simp: step_def Let_def dom_update update_conv' split: option.splits)
  from Cons.IH[OF d] s show ?case by simp
qed

lemma make_frequency_dict_keys:
  "distinct (map fst (make_frequency_dict cs))"
  "set (map fst (make_frequency_dict cs)) = set cs"
  using make_frequency_dict_step[of "[]" cs] by (simp_all add: make_frequency_dict_def)


lemma decode_one_code:
  "rm (cur @ p) = Some c \<Longrightarrow> p \<noteq> []
   \<Longrightarrow> (\<And>q. strict_prefix q p \<Longrightarrow> q \<noteq> [] \<Longrightarrow> rm (cur @ q) = None)
   \<Longrightarrow> decode_text_loop rm (p @ rest) cur dec = decode_text_loop rm rest [] (dec @ [c])"
proof (induction p arbitrary: cur)
  case Nil
  then show ?case by simp
next
  case (Cons x p)
  show ?case
  proof (cases "p = []")
    case True
    then show ?thesis using Cons.prems(1) by simp
  next
    case False
    have "strict_prefix [x] (x # p)" using False by (simp add: strict_prefix_def)
    from Cons.prems(3)[OF this] have n: "rm (cur @ [x]) = None" by simp
    have "decode_text_loop rm (p @ rest) (cur @ [x]) dec = decode_text_loop rm rest [] (dec @ [c])"
    proof (rule Cons.IH)
      show "rm ((cur @ [x]) @ p) = Some c" using Cons.prems(1) by simp
      show "p \<noteq> []" by (rule False)
      fix q assume q: "strict_prefix q p" "q \<noteq> []"
      then have "strict_prefix (x # q) (x # p)" by (simp add: strict_prefix_def)
      from Cons.prems(3)[OF this] show "rm ((cur @ [x]) @ q) = None" by simp
    qed
    then show ?thesis using n by simp
  qed
qed

lemma decode_codes:
  assumes "\<And>c. c \<in> set cs \<Longrightarrow> \<exists>p. cds c = Some p \<and> p \<noteq> [] \<and> rm p = Some c
                     \<and> (\<forall>q. strict_prefix q p \<and> q \<noteq> [] \<longrightarrow> rm q = None)"
  shows "decode_text_loop rm (concat (map (\<lambda>c. the (cds c)) cs)) [] dec = ([], dec @ cs)"
  using assms
proof (induction cs arbitrary: dec)
  case Nil
  then show ?case by simp
next
  case (Cons c cs)
  from Cons.prems[of c] obtain p where p: "cds c = Some p" "p \<noteq> []" "rm p = Some c"
    "\<forall>q. strict_prefix q p \<and> q \<noteq> [] \<longrightarrow> rm q = None" by auto
  have "decode_text_loop rm (p @ concat (map (\<lambda>c. the (cds c)) cs)) [] dec
          = decode_text_loop rm (concat (map (\<lambda>c. the (cds c)) cs)) [] (dec @ [c])"
    using p by (intro decode_one_code) auto
  also have "\<dots> = ([], (dec @ [c]) @ cs)"
    using Cons.prems by (intro Cons.IH) auto
  finally show ?case using p(1) by simp
qed

lemma wf_two_symbols_path_not_Nil:
  assumes "wf_node t" "(a, p) \<in> set (paths t)" "b \<in> set (alphabet t)" "a \<noteq> b"
  shows "p \<noteq> []"
  using assms by (cases t rule: paths.cases) (auto simp: alphabet_def)

text \<open>
  The round trip for a text that has at least two different symbols after
  \<^verbatim>\<open>rstrip\<close>: \<^verbatim>\<open>compress\<close> on a new object succeeds, and \<^verbatim>\<open>decompress\<close> of
  its bytes with the tables of that object returns the stripped text (the text itself
  when it does not end in white space).
\<close>

theorem round_trip_two_symbols:
  assumes "a \<in> set (rstrip text0)" "b \<in> set (rstrip text0)" "a \<noteq> b"
  shows "\<exists>self1 bs. compress new_HuffmanCoding text0 = Inr (self1, bs)
           \<and> decompress self1 bs = Inr (rstrip text0)"
proof -
  define cs where "cs = rstrip text0"
  have assms': "a \<in> set cs" "b \<in> set cs" using assms by (simp_all add: cs_def)
  let ?fd = "make_frequency_dict cs"
  note keys = make_frequency_dict_keys[of cs]
  have ne: "?fd \<noteq> []" using keys(2) assms'(1) by auto
  from make_tables_root[OF ne] obtain root where r: "wf_node root"
    "mset (alphabet root) = mset (map fst ?fd)"
    "make_tables new_HuffmanCoding ?fd = Inr (make_codes_helper (Some root) [] new_HuffmanCoding)"
    by blast
  let ?s = "make_codes_helper (Some root) [] new_HuffmanCoding"
  have al: "set (alphabet root) = set cs" using r(2) keys(2) by (metis set_mset_mset)
  have di: "distinct (alphabet root)" using r(2) keys(1) by (metis mset_eq_imp_distinct_iff)
  have code: "\<exists>p. codes ?s c = Some p \<and> p \<noteq> [] \<and> is_bits p \<and> reverse_mapping ?s p = Some c
                  \<and> (\<forall>q. strict_prefix q p \<and> q \<noteq> [] \<longrightarrow> reverse_mapping ?s q = None)"
    if c: "c \<in> set cs" for c
  proof -
    from c al have "c \<in> fst ` set (paths root)" by (simp add: alphabet_def)
    then obtain p where p: "(c, p) \<in> set (paths root)" by force
    have other: "\<exists>d. d \<in> set (alphabet root) \<and> c \<noteq> d" using assms' assms(3) al by metis
    then have pne: "p \<noteq> []" using wf_two_symbols_path_not_Nil[OF r(1) p] by blast
    have c1: "codes ?s c = Some p" using helper_codes_at[OF r(1) di p, of "[]"] by simp
    have c2: "reverse_mapping ?s p = Some c" using helper_rm_at[OF r(1) p, of "[]"] by simp
    have c3: "reverse_mapping ?s q = None" if q: "strict_prefix q p" "q \<noteq> []" for q
    proof (rule ccontr)
      assume "reverse_mapping ?s q \<noteq> None"
      then obtain d where "reverse_mapping ?s q = Some d" by blast
      from helper_rm_from[OF r(1) this] have "(d, q) \<in> set (paths root)"
        by (simp add: new_HuffmanCoding_def)
      from paths_prefix[OF this p] q(1) show False by (auto simp: strict_prefix_def)
    qed
    show ?thesis using c1 c2 c3 pne paths_is_bits[OF p] by blast
  qed
  let ?enc = "concat (map (\<lambda>c. the (codes ?s c)) cs)"
  have all: "\<forall>c\<in>set cs. codes ?s c \<noteq> None" using code by fastforce
  have enc: "get_encoded_text ?s cs = Inr ?enc"
    using get_encoded_text_loop_Inr[OF all, of "[]"] by (simp add: get_encoded_text_def)
  have "is_bits (the (codes ?s c))" if "c \<in> set cs" for c using code[OF that] by auto
  then have bits: "is_bits ?enc" by (induction cs) simp_all
  from get_byte_array_bits[OF is_bits_pad_encoded_text[OF bits] length_pad_encoded_text_mod]
  obtain bs where bs: "get_byte_array (pad_encoded_text ?enc) = Inr bs"
    "read_bit_string bs = pad_encoded_text ?enc" by blast
  have comp: "compress new_HuffmanCoding text0 = Inr (?s, bs)"
    by (simp add: compress_def Let_def cs_def[symmetric] r(3) encode_payload_def enc bs(1))
  have "decode_text_loop (reverse_mapping ?s) ?enc [] [] = ([], [] @ cs)"
    using code by (intro decode_codes) blast
  then have "decode_text ?s ?enc = cs" by (simp add: decode_text_def)
  then have "decompress ?s bs = Inr cs"
    by (simp add: decompress_def Let_def bs(2) remove_padding_pad_encoded_text)
  with comp show ?thesis unfolding cs_def by blast
qed

text \<open>
  The round trip at the text aaabbc followed by a line feed, compressed to the bytes 7,
  31 and 0 and decompressed to aaabbc.
\<close>

theorem round_trip_two_symbols_witness:
  "CHR ''a'' \<in> set (rstrip (''aaabbc'' @ [CHR 0x0A])) \<and> CHR ''b'' \<in> set (rstrip (''aaabbc'' @ [CHR 0x0A]))
   \<and> CHR ''a'' \<noteq> CHR ''b'' \<and> rstrip (''aaabbc'' @ [CHR 0x0A]) = ''aaabbc''
   \<and> (case compress new_HuffmanCoding (''aaabbc'' @ [CHR 0x0A]) of
         Inl e \<Rightarrow> False
       | Inr (self1, bs) \<Rightarrow> bs = [7, 31, 0] \<and> decompress self1 bs = Inr ''aaabbc'')"
proof -
  have st: "rstrip (''aaabbc'' @ [CHR 0x0A]) = ''aaabbc''" by code_simp
  have ev: "case compress new_HuffmanCoding (''aaabbc'' @ [CHR 0x0A]) of
         Inl e \<Rightarrow> False
       | Inr (self1, bs) \<Rightarrow> bs = [7, 31, 0] \<and> decompress self1 bs = Inr ''aaabbc''"
    by code_simp
  have "\<exists>self1 bs. compress new_HuffmanCoding (''aaabbc'' @ [CHR 0x0A]) = Inr (self1, bs)
          \<and> decompress self1 bs = Inr (rstrip (''aaabbc'' @ [CHR 0x0A]))"
  proof (rule round_trip_two_symbols[of "CHR ''a''" _ "CHR ''b''"])
    show "CHR ''a'' \<in> set (rstrip (''aaabbc'' @ [CHR 0x0A]))" unfolding st by simp
    show "CHR ''b'' \<in> set (rstrip (''aaabbc'' @ [CHR 0x0A]))" unfolding st by simp
    show "CHR ''a'' \<noteq> CHR ''b''" by simp
  qed
  then show ?thesis using ev unfolding st by simp
qed

text \<open>
  Claim C1, what the code does on a text of one repeated symbol. The text aaaa is
  compressed to the two bytes 8 and 0, and decompressing them with the tables of the
  same object gives the empty text.
\<close>

theorem single_symbol_round_trip_lost:
  "case compress new_HuffmanCoding ''aaaa'' of
     Inl e \<Rightarrow> False
   | Inr (self1, b) \<Rightarrow> b = [8, 0] \<and> decompress self1 b = Inr []"
  by code_simp

end
